theory Spec2Isabelle
  imports Main "HOL-Library.Word" "HOL-Library.AList" "HOL-Library.Sublist"
begin

section \<open>Time, errors and the recurrence-rule library\<close>

text \<open>
  The scheduler of package \<open>scheduler\<close> (Scheduler, Task, TaskSchedule) is embedded
  function by function. An instant (Go's \<open>time.Time\<close>) and a \<open>time.Duration\<close> are
  integers counting nanoseconds; the zero \<open>time.Time\<close> is \<open>0\<close>, \<open>a.After(b)\<close> is \<open>b < a\<close>
  and \<open>==\<close> on two times is equality of the instants. Go's \<open>int\<close> is taken at 64 bits,
  so \<open>Count += 1\<close> wraps and comparisons read the word as signed.
\<close>

type_synonym time = int

type_synonym duration = int

datatype error = Error string | BadRequest error

text \<open>
  The library \<open>rrule-go\<close> is not part of the repository. A parsed rule is the three
  things the scheduler reads from it: \<open>rule.Options.Count\<close>, \<open>rule.GetUntil()\<close> and
  \<open>rule.Before(t, inc)\<close>. The parser \<open>rrule.StrToRRule\<close> is a parameter of every
  function that calls it, a function of the string it is given: it returns an error
  (\<open>Inl\<close>) or a rule (\<open>Inr\<close>).
\<close>

record rrule =
  Options_Count :: "64 word"
  GetUntil :: time
  Before :: "time \<Rightarrow> bool \<Rightarrow> time"

type_synonym parser = "string \<Rightarrow> error + rrule"

section \<open>Task and TaskSchedule\<close>

text \<open>
  \<open>lock chan struct{}\<close>: the elements carry no data, so a channel is its capacity and
  the number of elements in its buffer. A nil channel has capacity \<open>0\<close>.
\<close>

record chan =
  capacity :: nat
  buffered :: nat

definition make_chan :: "nat \<Rightarrow> chan" where
  "make_chan n = \<lparr>capacity = n, buffered = 0\<rparr>"

record TaskSchedule =
  Recurrence :: string
  Count :: "64 word"
  UpdatedAt :: time

record Task =
  Id_task :: string
  Schedule :: TaskSchedule
  lock :: chan

text \<open>
  \<open>Lock\<close>: \<open>select { case <-t.lock: return true; default: return false }\<close>. Every
  send on \<open>t.lock\<close> in the package is non-blocking too, so no sender ever waits and the
  receive succeeds exactly when the buffer holds an element.
\<close>

definition Lock :: "Task \<Rightarrow> bool \<times> Task" where
  "Lock t =
     (if 0 < buffered (lock t)
      then (True, t\<lparr>lock := (lock t)\<lparr>buffered := buffered (lock t) - 1\<rparr>\<rparr>)
      else (False, t))"

text \<open>\<open>Unlock\<close>: \<open>select { case t.lock <- struct{}{}: default: }\<close>.\<close>

definition Unlock :: "Task \<Rightarrow> Task" where
  "Unlock t =
     (if buffered (lock t) < capacity (lock t)
      then t\<lparr>lock := (lock t)\<lparr>buffered := buffered (lock t) + 1\<rparr>\<rparr>
      else t)"

definition Occurrences :: "Task \<Rightarrow> 64 word" where
  "Occurrences t = Count (Schedule t)"

definition CanSchedule :: "parser \<Rightarrow> Task \<Rightarrow> time \<Rightarrow> bool" where
  "CanSchedule StrToRRule t now =
     (if Recurrence (Schedule t) = [] then Count (Schedule t) = 0
      else case StrToRRule (Recurrence (Schedule t)) of
        Inr rule \<Rightarrow>
          if Options_Count rule \<noteq> 0 \<and> sint (Options_Count rule) \<le> sint (Count (Schedule t))
          then False
          else if GetUntil rule < now then False
          else if Before rule now True = Before rule (UpdatedAt (Schedule t)) True then False
          else True
      | Inl err \<Rightarrow> False)"

definition MarkScheduled :: "time \<Rightarrow> Task \<Rightarrow> Task" where
  "MarkScheduled at t =
     t\<lparr>Schedule := (Schedule t)\<lparr>Count := Count (Schedule t) + 1, UpdatedAt := at\<rparr>\<rparr>"

text \<open>\<open>IsComplete\<close> reads the clock itself (\<open>time.Now()\<close>): the reading is \<open>clk\<close>.\<close>

definition IsComplete :: "parser \<Rightarrow> time \<Rightarrow> Task \<Rightarrow> bool" where
  "IsComplete StrToRRule clk t =
     (if Recurrence (Schedule t) = [] then Count (Schedule t) \<noteq> 0
      else case StrToRRule (Recurrence (Schedule t)) of
        Inr rule \<Rightarrow>
          if Options_Count rule \<noteq> 0 \<and> sint (Options_Count rule) \<le> sint (Count (Schedule t))
          then True
          else if GetUntil rule < clk then True
          else False
      | Inl err \<Rightarrow> True)"

text \<open>\<open>SetRecurrence\<close> returns the error (or nil) and the task as it leaves it.\<close>

definition SetRecurrence :: "parser \<Rightarrow> string \<Rightarrow> Task \<Rightarrow> error option \<times> Task" where
  "SetRecurrence StrToRRule rfc t =
     (case StrToRRule rfc of
        Inl err \<Rightarrow> (Some (BadRequest err), t)
      | Inr rule \<Rightarrow> (None, t\<lparr>Schedule := (Schedule t)\<lparr>Recurrence := rfc\<rparr>\<rparr>))"

definition NewTask :: "string \<Rightarrow> Task" where
  "NewTask ident =
     Unlock \<lparr>Id_task = ident,
             Schedule = \<lparr>Recurrence = [], Count = 0, UpdatedAt = 0\<rparr>,
             lock = make_chan 1\<rparr>"

text \<open>A caller's sequence of \<open>Lock()\<close> and \<open>Unlock()\<close> calls on one task.\<close>

datatype lock_call = CallLock | CallUnlock

fun call :: "lock_call \<Rightarrow> Task \<Rightarrow> Task" where
  "call CallLock t = snd (Lock t)"
| "call CallUnlock t = Unlock t"

section \<open>Scheduler\<close>

text \<open>The constants of Go's \<open>time\<close> package that the defaults are written with.\<close>

definition Nanosecond :: duration where
  "Nanosecond = 1"

definition Microsecond :: duration where
  "Microsecond = 1000 * Nanosecond"

definition Millisecond :: duration where
  "Millisecond = 1000 * Microsecond"

definition DefaultInterval :: duration where
  "DefaultInterval = Millisecond"

definition DefaultEnqueueTimeout :: duration where
  "DefaultEnqueueTimeout = 10 * Millisecond"

definition DefaultDequeueTimeout :: duration where
  "DefaultDequeueTimeout = 10 * Millisecond"

text \<open>
  A \<open>*Task\<close> is an address in a store of tasks. The ledger \<open>tasks map[string]*Task\<close> is
  an association list with one pair for each key: \<open>s.tasks[k] = v\<close> is \<open>AList.update\<close>,
  \<open>delete(s.tasks, k)\<close> is \<open>AList.delete\<close>, a lookup is \<open>map_of\<close>, and \<open>range\<close> visits
  the keys in an order that the model leaves open. The callbacks \<open>notify\<close> and
  \<open>notifyWorker\<close> are recorded as set (\<open>True\<close>) or nil. The queue, the mutexes, the
  wait group and the unbuffered channel \<open>completed\<close> hold no data of their own here:
  the queue's answers are inputs, and a send on \<open>completed\<close> is a unit of work waiting
  at its send statement.
\<close>

type_synonym addr = nat

record Scheduler =
  interval :: duration
  stop :: chan
  enqueueTimeout :: duration
  dequeueTimeout :: duration
  tasks :: "(string \<times> addr) list"
  notify :: bool
  notifyWorker :: bool

definition Every :: "duration \<Rightarrow> Scheduler \<Rightarrow> Scheduler" where
  "Every d s = s\<lparr>interval := d\<rparr>"

definition EnqueueTimeout :: "duration \<Rightarrow> Scheduler \<Rightarrow> Scheduler" where
  "EnqueueTimeout d s = s\<lparr>enqueueTimeout := d\<rparr>"

definition DequeueTimeout :: "duration \<Rightarrow> Scheduler \<Rightarrow> Scheduler" where
  "DequeueTimeout d s = s\<lparr>dequeueTimeout := d\<rparr>"

text \<open>\<open>Notify\<close> and \<open>NotifyWorker\<close> are given \<open>True\<close> for a function, \<open>False\<close> for nil.\<close>

definition Notify :: "bool \<Rightarrow> Scheduler \<Rightarrow> Scheduler" where
  "Notify f s = s\<lparr>notify := f\<rparr>"

definition NotifyWorker :: "bool \<Rightarrow> Scheduler \<Rightarrow> Scheduler" where
  "NotifyWorker f s = s\<lparr>notifyWorker := f\<rparr>"

definition New :: Scheduler where
  "New =
     \<lparr>interval = DefaultInterval,
      stop = make_chan 1,
      enqueueTimeout = DefaultEnqueueTimeout,
      dequeueTimeout = DefaultDequeueTimeout,
      tasks = [],
      notify = False,
      notifyWorker = False\<rparr>"

text \<open>\<open>Stop\<close>: \<open>select { case s.stop <- struct{}{}: default: }\<close>.\<close>

definition Stop :: "Scheduler \<Rightarrow> Scheduler" where
  "Stop s =
     (if buffered (stop s) < capacity (stop s)
      then s\<lparr>stop := (stop s)\<lparr>buffered := buffered (stop s) + 1\<rparr>\<rparr>
      else s)"

text \<open>
  \<open>Add(tasks ...*Task)\<close> runs its loop body once for each pointer. The body has two
  lock regions with nothing held between them, and it is modelled as the two.
  \<open>Add_check\<close> is the body up to \<open>s.lock.RUnlock()\<close>: reading \<open>task.Id\<close> through a pointer
  that holds no task panics (\<open>None\<close>); with the empty id, or with an id the ledger has
  when it is looked up, the body ends (\<open>False\<close>); otherwise it goes on (\<open>True\<close>).
  \<open>Add_insert\<close> is \<open>s.lock.Lock(); s.tasks[task.Id] = task; s.lock.Unlock()\<close>, which
  does not look at the ledger again.
\<close>

definition Add_check :: "(addr \<Rightarrow> Task option) \<Rightarrow> addr \<Rightarrow> Scheduler \<Rightarrow> bool option" where
  "Add_check store task s =
     (case store task of
        None \<Rightarrow> None
      | Some t \<Rightarrow>
          if Id_task t = [] then Some False
          else if map_of (tasks s) (Id_task t) \<noteq> None then Some False
          else Some True)"

definition Add_insert :: "(addr \<Rightarrow> Task option) \<Rightarrow> addr \<Rightarrow> Scheduler \<Rightarrow> Scheduler option" where
  "Add_insert store task s =
     (case store task of
        None \<Rightarrow> None
      | Some t \<Rightarrow> Some (s\<lparr>tasks := AList.update (Id_task t) task (tasks s)\<rparr>))"

section \<open>The worker handler\<close>

text \<open>
  A message of the queue is what the handler can get from it: its id, what \<open>Decode\<close>
  gives (an error or the task) and what \<open>Ack\<close> answers. \<open>errors.IsFatal\<close> is not among
  the sources: it is a parameter.
\<close>

record Message =
  msg_Id :: string
  Decode :: "error + Task"
  Ack :: "error option"

text \<open>
  What the handler \<open>h\<close> of \<open>Worker\<close> has done: the \<open>Dequeue\<close> calls made, the errors given
  to \<open>errors.Send\<close>, the calls \<open>go s.notifyWorker(x)\<close> (\<open>None\<close> is \<open>nil\<close>), the messages for
  which it started a unit of work, the tasks \<open>job\<close> was called with, and whether the loop
  has been left.
\<close>

record handled =
  dequeued :: nat
  sent :: "error list"
  notified :: "Message option list"
  started :: "Message list"
  jobs :: "Task list"
  finished :: bool

definition idle :: handled where
  "idle = \<lparr>dequeued = 0, sent = [], notified = [], started = [], jobs = [], finished = False\<rparr>"

text \<open>
  The loop \<open>for { msg, err := s.queue.Dequeue(dequeueCtx); ... }\<close> over the answers the
  queue gives to the successive \<open>Dequeue\<close> calls. When the answers run out the handler
  is waiting in \<open>Dequeue\<close>: \<open>finished\<close> stays false.
\<close>

fun handler :: "(error \<Rightarrow> bool) \<Rightarrow> Scheduler \<Rightarrow> (error + Message) list \<Rightarrow> handled \<Rightarrow> handled" where
  "handler IsFatal s [] h = h"
| "handler IsFatal s (Inl err # answers) h =
     h\<lparr>dequeued := dequeued h + 1,
       sent := sent h @ (if IsFatal err then [err] else []),
       notified := notified h @ (if notifyWorker s then [None] else []),
       finished := True\<rparr>"
| "handler IsFatal s (Inr msg # answers) h =
     handler IsFatal s answers (h\<lparr>dequeued := dequeued h + 1, started := started h @ [msg]\<rparr>)"

text \<open>
  The unit of work started for a message: decode, call \<open>job\<close>, and on the way out
  acknowledge and notify.
\<close>

definition handle_message :: "Scheduler \<Rightarrow> Message \<Rightarrow> handled \<Rightarrow> handled" where
  "handle_message s msg h =
     (let h1 = (case Decode msg of
                  Inl err \<Rightarrow> h\<lparr>sent := sent h @ [err]\<rparr>
                | Inr task \<Rightarrow> h\<lparr>jobs := jobs h @ [task]\<rparr>);
          h2 = (case Ack msg of
                  Some err \<Rightarrow> h1\<lparr>sent := sent h1 @ [err]\<rparr>
                | None \<Rightarrow> h1)
      in h2\<lparr>notified := notified h2 @ (if notifyWorker s then [Some msg] else [])\<rparr>)"

section \<open>The scheduler at work\<close>

text \<open>
  \<open>Scheduler.start\<close> runs the dispatch loop, the units of work it starts for the tasks it
  dispatches, and the retirement loop side by side, next to the caller. They meet at
  the ledger, at the tasks behind the pointers, at the tasks' locks and at the channel
  \<open>completed\<close>. The model is a world and the actions that change it; one action is a
  stretch of one of them between two such meetings:

  \<^item> the caller: \<open>NewTask\<close>, \<open>SetRecurrence\<close> on a task, and for \<open>Add\<close> the check and the
    insertion of its loop body, each on its own (other actions, also those of another
    \<open>Add\<close>, may come between them);
  \<^item> the clock moves forward;
  \<^item> the dispatch loop: it reads \<open>now\<close> and takes the read lock, visits a task of the
    ledger (\<open>Lock\<close>, \<open>CanSchedule\<close>, then \<open>Unlock\<close> and notify, or \<open>go func(task)\<close>), and
    releases the read lock when every task has been visited;
  \<^item> a unit of work: the answer of \<open>Enqueue\<close> (with an error: \<open>errors.Send\<close>, return,
    and the deferred \<open>Unlock\<close> and notify), \<open>MarkScheduled(now)\<close>, \<open>IsComplete()\<close> (when
    false: the deferred calls; when true the unit waits at \<open>s.completed <- task\<close>),
    and, once the send has gone through, the deferred calls;
  \<^item> the retirement loop: the receive from \<open>completed\<close>, which takes the task from a unit
    waiting at its send, and \<open>delete(s.tasks, task.Id)\<close> under the write lock.

  The ticks of the two loops, \<open>Start\<close>, \<open>Stop\<close> and the cancellation of the context
  only decide when an action may happen; they are left out. The caller leaves
  \<open>Lock\<close>, \<open>Unlock\<close> and \<open>MarkScheduled\<close> to the scheduler and does not write to the
  fields of a task.
\<close>

datatype pc = AtEnqueue | AtMarkScheduled | AtIsComplete | AtSend | AtReturn

record dispatch =
  d_task :: addr
  d_now :: time
  d_at :: pc

datatype event =
    Spawned nat addr
  | Enqueued nat addr
  | EnqueueFailed nat addr error
  | Marked nat addr
  | Complete nat addr time Task
  | NotComplete nat addr
  | Relayed nat addr
  | Removed string addr

text \<open>
  \<open>heap\<close> holds the tasks behind the pointers. \<open>sweep\<close> is set while the dispatch loop is
  inside \<open>for _, task := range s.tasks\<close> (it holds the read lock): the \<open>now\<close> it read and
  the keys still to visit. \<open>units\<close> are the units of work under way, by number.
  \<open>received\<close> is the task the retirement loop has received and not yet deleted.
  \<open>sink\<close> is what \<open>errors.Send\<close> got, \<open>notifications\<close> the calls \<open>go s.notify(task)\<close>, \<open>queued\<close> the
  id and payload of every \<open>Enqueue\<close> that returned nil, \<open>trace\<close> what the units and the
  retirement loop did, oldest first. \<open>adding\<close> are the tasks for which an \<open>Add\<close> has
  passed its check and not yet inserted, \<open>inserted\<close> the insertions made, oldest first.
\<close>

record world =
  sched :: Scheduler
  heap :: "addr \<Rightarrow> Task option"
  fresh :: addr
  clock :: time
  sweep :: "(time \<times> string list) option"
  units :: "nat \<Rightarrow> dispatch option"
  next_unit :: nat
  received :: "addr option"
  sink :: "error list"
  notifications :: "addr list"
  queued :: "(string \<times> Task) list"
  trace :: "event list"
  adding :: "addr list"
  inserted :: "(string \<times> addr) list"

datatype action =
    CallNewTask string
  | CallSetRecurrence addr string
  | AddCheck addr
  | AddInsert addr
  | Tick time
  | SweepBegin
  | SweepVisit string
  | SweepEnd
  | UnitEnqueue nat "error option"
  | UnitMarkScheduled nat
  | UnitIsComplete nat
  | UnitReturn nat
  | RetireReceive nat
  | RetireDelete

text \<open>\<open>task.Unlock(); if s.notify != nil { go s.notify(task) }\<close>\<close>

definition leave :: "addr \<Rightarrow> world \<Rightarrow> world" where
  "leave a w =
     w\<lparr>heap := (heap w)(a := map_option Unlock (heap w a)),
       notifications := notifications w @ (if notify (sched w) then [a] else [])\<rparr>"

definition call_NewTask :: "string \<Rightarrow> world \<Rightarrow> world option" where
  "call_NewTask ident w =
     Some (w\<lparr>heap := (heap w)(fresh w \<mapsto> NewTask ident), fresh := fresh w + 1\<rparr>)"

definition call_SetRecurrence :: "parser \<Rightarrow> addr \<Rightarrow> string \<Rightarrow> world \<Rightarrow> world option" where
  "call_SetRecurrence StrToRRule a rfc w =
     (case heap w a of
        None \<Rightarrow> None
      | Some t \<Rightarrow> Some (w\<lparr>heap := (heap w)(a \<mapsto> snd (SetRecurrence StrToRRule rfc t))\<rparr>))"

text \<open>The check of \<open>Add\<close> for one task, under the read lock.\<close>

definition add_check :: "addr \<Rightarrow> world \<Rightarrow> world option" where
  "add_check a w =
     (case Add_check (heap w) a (sched w) of
        None \<Rightarrow> None
      | Some go \<Rightarrow> Some (if go then w\<lparr>adding := adding w @ [a]\<rparr> else w))"

text \<open>
  The insertion of \<open>Add\<close> for a task that has passed the check, under the write lock,
  which it gets when no sweep holds the read lock.
\<close>

definition add_insert :: "addr \<Rightarrow> world \<Rightarrow> world option" where
  "add_insert a w =
     (if a \<notin> set (adding w) \<or> sweep w \<noteq> None then None
      else case heap w a of
        None \<Rightarrow> None
      | Some t \<Rightarrow>
          (case Add_insert (heap w) a (sched w) of
             None \<Rightarrow> None
           | Some s \<Rightarrow>
               Some (w\<lparr>sched := s,
                       adding := remove1 a (adding w),
                       inserted := inserted w @ [(Id_task t, a)]\<rparr>)))"

definition tick :: "time \<Rightarrow> world \<Rightarrow> world option" where
  "tick t w = (if clock w \<le> t then Some (w\<lparr>clock := t\<rparr>) else None)"

text \<open>\<open>now := time.Now(); s.lock.RLock()\<close>\<close>

definition sweep_begin :: "world \<Rightarrow> world option" where
  "sweep_begin w =
     (if sweep w \<noteq> None then None
      else Some (w\<lparr>sweep := Some (clock w, map fst (tasks (sched w)))\<rparr>))"

text \<open>The body of \<open>for _, task := range s.tasks\<close> for the task under the key \<open>k\<close>.\<close>

definition sweep_visit :: "parser \<Rightarrow> string \<Rightarrow> world \<Rightarrow> world option" where
  "sweep_visit StrToRRule k w =
     (case sweep w of
        None \<Rightarrow> None
      | Some (now, todo) \<Rightarrow>
          if k \<notin> set todo then None
          else case map_of (tasks (sched w)) k of
            None \<Rightarrow> None
          | Some a \<Rightarrow>
              (case heap w a of
                 None \<Rightarrow> None
               | Some t \<Rightarrow>
                   let w1 = w\<lparr>sweep := Some (now, remove1 k todo)\<rparr>;
                       locked = fst (Lock t);
                       w2 = w1\<lparr>heap := (heap w1)(a \<mapsto> snd (Lock t))\<rparr>
                   in if \<not> locked then Some w1
                      else if \<not> CanSchedule StrToRRule (snd (Lock t)) now then Some (leave a w2)
                      else Some (w2\<lparr>units := (units w2)(next_unit w2 \<mapsto>
                                         \<lparr>d_task = a, d_now = now, d_at = AtEnqueue\<rparr>),
                                     next_unit := next_unit w2 + 1,
                                     trace := trace w2 @ [Spawned (next_unit w2) a]\<rparr>)))"

text \<open>\<open>s.lock.RUnlock()\<close>, after the last task.\<close>

definition sweep_end :: "world \<Rightarrow> world option" where
  "sweep_end w =
     (case sweep w of
        None \<Rightarrow> None
      | Some (now, todo) \<Rightarrow> if todo = [] then Some (w\<lparr>sweep := None\<rparr>) else None)"

text \<open>
  \<open>if err := s.queue.Enqueue(ctx, task.Id, task); err != nil { errors.Send(err); return }\<close>
  with the queue's answer; the return runs the deferred calls.
\<close>

definition unit_Enqueue :: "nat \<Rightarrow> error option \<Rightarrow> world \<Rightarrow> world option" where
  "unit_Enqueue u answer w =
     (case units w u of
        None \<Rightarrow> None
      | Some d \<Rightarrow>
          if d_at d \<noteq> AtEnqueue then None
          else case heap w (d_task d) of
            None \<Rightarrow> None
          | Some t \<Rightarrow>
              (case answer of
                 Some err \<Rightarrow>
                   Some (leave (d_task d)
                     (w\<lparr>units := (units w)(u := None),
                        sink := sink w @ [err],
                        trace := trace w @ [EnqueueFailed u (d_task d) err]\<rparr>))
               | None \<Rightarrow>
                   Some (w\<lparr>units := (units w)(u \<mapsto> d\<lparr>d_at := AtMarkScheduled\<rparr>),
                           queued := queued w @ [(Id_task t, t)],
                           trace := trace w @ [Enqueued u (d_task d)]\<rparr>)))"

text \<open>\<open>task.MarkScheduled(now)\<close>, with the \<open>now\<close> of the sweep that started the unit.\<close>

definition unit_MarkScheduled :: "nat \<Rightarrow> world \<Rightarrow> world option" where
  "unit_MarkScheduled u w =
     (case units w u of
        None \<Rightarrow> None
      | Some d \<Rightarrow>
          if d_at d \<noteq> AtMarkScheduled then None
          else case heap w (d_task d) of
            None \<Rightarrow> None
          | Some t \<Rightarrow>
              Some (w\<lparr>heap := (heap w)(d_task d \<mapsto> MarkScheduled (d_now d) t),
                      units := (units w)(u \<mapsto> d\<lparr>d_at := AtIsComplete\<rparr>),
                      trace := trace w @ [Marked u (d_task d)]\<rparr>))"

text \<open>\<open>if task.IsComplete() { s.completed <- task }\<close> up to the send.\<close>

definition unit_IsComplete :: "parser \<Rightarrow> nat \<Rightarrow> world \<Rightarrow> world option" where
  "unit_IsComplete StrToRRule u w =
     (case units w u of
        None \<Rightarrow> None
      | Some d \<Rightarrow>
          if d_at d \<noteq> AtIsComplete then None
          else case heap w (d_task d) of
            None \<Rightarrow> None
          | Some t \<Rightarrow>
              if IsComplete StrToRRule (clock w) t
              then Some (w\<lparr>units := (units w)(u \<mapsto> d\<lparr>d_at := AtSend\<rparr>),
                           trace := trace w @ [Complete u (d_task d) (clock w) t]\<rparr>)
              else Some (leave (d_task d)
                     (w\<lparr>units := (units w)(u := None),
                        trace := trace w @ [NotComplete u (d_task d)]\<rparr>)))"

text \<open>
  \<open>case task := <-s.completed\<close> in the retirement loop: the channel has no buffer, so
  the receive takes the task of a unit that waits at its send, and the unit goes on.
\<close>

definition retire_receive :: "nat \<Rightarrow> world \<Rightarrow> world option" where
  "retire_receive u w =
     (case units w u of
        None \<Rightarrow> None
      | Some d \<Rightarrow>
          if d_at d \<noteq> AtSend \<or> received w \<noteq> None then None
          else Some (w\<lparr>units := (units w)(u \<mapsto> d\<lparr>d_at := AtReturn\<rparr>),
                       received := Some (d_task d),
                       trace := trace w @ [Relayed u (d_task d)]\<rparr>))"

text \<open>The unit returns after its send: the deferred calls.\<close>

definition unit_return :: "nat \<Rightarrow> world \<Rightarrow> world option" where
  "unit_return u w =
     (case units w u of
        None \<Rightarrow> None
      | Some d \<Rightarrow>
          if d_at d \<noteq> AtReturn then None
          else Some (leave (d_task d) (w\<lparr>units := (units w)(u := None)\<rparr>)))"

text \<open>\<open>s.lock.Lock(); delete(s.tasks, task.Id); s.lock.Unlock()\<close>\<close>

definition retire_delete :: "world \<Rightarrow> world option" where
  "retire_delete w =
     (case received w of
        None \<Rightarrow> None
      | Some a \<Rightarrow>
          if sweep w \<noteq> None then None
          else case heap w a of
            None \<Rightarrow> None
          | Some t \<Rightarrow>
              Some (w\<lparr>sched := (sched w)\<lparr>tasks := AList.delete (Id_task t) (tasks (sched w))\<rparr>,
                      received := None,
                      trace := trace w @ [Removed (Id_task t) a]\<rparr>))"

text \<open>An action that cannot happen in a world gives \<open>None\<close>.\<close>

fun fire :: "parser \<Rightarrow> action \<Rightarrow> world \<Rightarrow> world option" where
  "fire StrToRRule (CallNewTask ident) w = call_NewTask ident w"
| "fire StrToRRule (CallSetRecurrence a rfc) w = call_SetRecurrence StrToRRule a rfc w"
| "fire StrToRRule (AddCheck a) w = add_check a w"
| "fire StrToRRule (AddInsert a) w = add_insert a w"
| "fire StrToRRule (Tick t) w = tick t w"
| "fire StrToRRule SweepBegin w = sweep_begin w"
| "fire StrToRRule (SweepVisit k) w = sweep_visit StrToRRule k w"
| "fire StrToRRule SweepEnd w = sweep_end w"
| "fire StrToRRule (UnitEnqueue u answer) w = unit_Enqueue u answer w"
| "fire StrToRRule (UnitMarkScheduled u) w = unit_MarkScheduled u w"
| "fire StrToRRule (UnitIsComplete u) w = unit_IsComplete StrToRRule u w"
| "fire StrToRRule (UnitReturn u) w = unit_return u w"
| "fire StrToRRule (RetireReceive u) w = retire_receive u w"
| "fire StrToRRule RetireDelete w = retire_delete w"

fun run :: "parser \<Rightarrow> action list \<Rightarrow> world \<Rightarrow> world option" where
  "run StrToRRule [] w = Some w"
| "run StrToRRule (x # xs) w =
     (case fire StrToRRule x w of
        None \<Rightarrow> None
      | Some w' \<Rightarrow> run StrToRRule xs w')"

text \<open>The world of a scheduler \<open>New(queue)\<close>, with or without a \<open>Notify\<close> callback.\<close>

definition boot :: "bool \<Rightarrow> world" where
  "boot f =
     \<lparr>sched = Notify f New, heap = (\<lambda>a. None), fresh = 0, clock = 0, sweep = None,
      units = (\<lambda>u. None), next_unit = 0, received = None, sink = [], notifications = [],
      queued = [], trace = [], adding = [], inserted = []\<rparr>"

section \<open>What holds in every world a run reaches\<close>

text \<open>
  Every task in the store was made by \<open>NewTask\<close>: its lock has capacity one and holds
  at most one token; and no task lies at or beyond the next free address.
\<close>

definition slots_ok :: "world \<Rightarrow> bool" where
  "slots_ok w \<longleftrightarrow>
     (\<forall>a t. heap w a = Some t \<longrightarrow> capacity (lock t) = 1 \<and> buffered (lock t) \<le> 1) \<and>
     (\<forall>a. fresh w \<le> a \<longrightarrow> heap w a = None)"

text \<open>
  \<open>relayed a k tr\<close>: in the trace \<open>tr\<close> some unit of work had its \<open>Enqueue\<close> of the task \<open>a\<close>
  return nil, then called \<open>MarkScheduled\<close>, then saw \<open>IsComplete()\<close> true (of a task with
  the id \<open>k\<close>), and then its send on \<open>completed\<close> went through. \<open>chain_at\<close> is the part
  of that a unit has behind it at each of its program points.
\<close>

definition relayed :: "parser \<Rightarrow> addr \<Rightarrow> string \<Rightarrow> event list \<Rightarrow> bool" where
  "relayed P a k tr \<longleftrightarrow>
     (\<exists>u clk t. subseq [Enqueued u a, Marked u a, Complete u a clk t, Relayed u a] tr \<and>
        IsComplete P clk t \<and> Id_task t = k)"

fun chain_at :: "parser \<Rightarrow> pc \<Rightarrow> nat \<Rightarrow> addr \<Rightarrow> string \<Rightarrow> event list \<Rightarrow> bool" where
  "chain_at P AtEnqueue u a k tr = True"
| "chain_at P AtMarkScheduled u a k tr = subseq [Enqueued u a] tr"
| "chain_at P AtIsComplete u a k tr = subseq [Enqueued u a, Marked u a] tr"
| "chain_at P AtSend u a k tr =
     (\<exists>clk t. subseq [Enqueued u a, Marked u a, Complete u a clk t] tr \<and>
        IsComplete P clk t \<and> Id_task t = k)"
| "chain_at P AtReturn u a k tr = True"

definition removals_ok :: "parser \<Rightarrow> event list \<Rightarrow> bool" where
  "removals_ok P tr \<longleftrightarrow> (\<forall>b k a af. tr = b @ Removed k a # af \<longrightarrow> relayed P a k b)"

definition idof :: "world \<Rightarrow> addr \<Rightarrow> string" where
  "idof w a = (case heap w a of None \<Rightarrow> [] | Some t \<Rightarrow> Id_task t)"

definition chain_ok :: "parser \<Rightarrow> world \<Rightarrow> bool" where
  "chain_ok P w \<longleftrightarrow>
     (\<forall>u d. units w u = Some d \<longrightarrow>
        heap w (d_task d) \<noteq> None \<and>
        chain_at P (d_at d) u (d_task d) (idof w (d_task d)) (trace w)) \<and>
     (\<forall>a. received w = Some a \<longrightarrow>
        heap w a \<noteq> None \<and> relayed P a (idof w a) (trace w)) \<and>
     removals_ok P (trace w)"




text \<open>The task an event is about.\<close>

fun about :: "event \<Rightarrow> addr" where
  "about (Spawned u a) = a"
| "about (Enqueued u a) = a"
| "about (EnqueueFailed u a e) = a"
| "about (Marked u a) = a"
| "about (Complete u a clk t) = a"
| "about (NotComplete u a) = a"
| "about (Relayed u a) = a"
| "about (Removed k a) = a"

section \<open>Sample instances\<close>

text \<open>
  One instance of the external parser, to run the functions on: it accepts the rule
  string \<open>FREQ=SECONDLY;COUNT=2\<close> and rejects every other string. The rule has two
  occurrences, at the zero instant and one second later, a cap of two, and no end of
  its own (\<open>GetUntil\<close> is the start plus the longest duration). \<open>Before(t, inc)\<close> is the
  last occurrence before \<open>t\<close> (or at \<open>t\<close>, when \<open>inc\<close> is set), and the zero instant when
  there is none.
\<close>

definition Second :: duration where
  "Second = 1000 * Millisecond"

definition sample_rule :: rrule where
  "sample_rule =
     \<lparr>Options_Count = 2,
      GetUntil = 9223372036854775807,
      Before = (\<lambda>t inc.
        let n = (if inc then t div Second else (t - 1) div Second)
        in if n < 0 then 0 else Second * min n 1)\<rparr>"

definition sample_StrToRRule :: parser where
  "sample_StrToRRule s =
     (if s = ''FREQ=SECONDLY;COUNT=2'' then Inr sample_rule
      else Inl (Error ''wrong format''))"

text \<open>A fatality test and a message.\<close>

definition sample_IsFatal :: "error \<Rightarrow> bool" where
  "sample_IsFatal e = (case e of Error m \<Rightarrow> m = ''fatal'' | BadRequest e' \<Rightarrow> False)"

definition sample_msg :: Message where
  "sample_msg = \<lparr>msg_Id = ''a'', Decode = Inr (NewTask ''a''), Ack = None\<rparr>"

text \<open>
  Runs of the scheduler. \<open>one_shot\<close>: a task with no recurrence is registered,
  dispatched with a healthy queue, seen complete and received by the retirement loop.
  \<open>failing\<close>: a task is registered and dispatched. \<open>late_recurrence\<close>: as \<open>one_shot\<close>,
  but the caller gives the task a recurrence while it waits on \<open>completed\<close>. \<open>race\<close>: the
  caller does the same; the retirement loop receives the task while a sweep holds the
  read lock; the unit unlocks the task and the sweep dispatches it a second time
  before the task is deleted; the caller then registers a new task under the same id,
  and the second unit of work, which reaches the cap of the rule, sends the old task
  to \<open>completed\<close> again.
\<close>

definition one_shot :: "action list" where
  "one_shot =
     [CallNewTask ''t1'', AddCheck 0, AddInsert 0, SweepBegin, SweepVisit ''t1'', SweepEnd,
      UnitEnqueue 0 None, UnitMarkScheduled 0, UnitIsComplete 0,
      RetireReceive 0, UnitReturn 0]"


definition late_recurrence :: "action list" where
  "late_recurrence =
     [CallNewTask ''t1'', AddCheck 0, AddInsert 0, SweepBegin, SweepVisit ''t1'', SweepEnd,
      UnitEnqueue 0 None, UnitMarkScheduled 0, UnitIsComplete 0,
      CallSetRecurrence 0 ''FREQ=SECONDLY;COUNT=2'',
      RetireReceive 0, UnitReturn 0, Tick Second]"

definition race :: "action list" where
  "race =
     [CallNewTask ''t1'', AddCheck 0, AddInsert 0, SweepBegin, SweepVisit ''t1'', SweepEnd,
      UnitEnqueue 0 None, UnitMarkScheduled 0, UnitIsComplete 0,
      CallSetRecurrence 0 ''FREQ=SECONDLY;COUNT=2'',
      Tick Second, SweepBegin, RetireReceive 0, UnitReturn 0, SweepVisit ''t1'', SweepEnd,
      RetireDelete,
      CallNewTask ''t1'', AddCheck 1, AddInsert 1,
      UnitEnqueue 1 None, UnitMarkScheduled 1, UnitIsComplete 1,
      RetireReceive 1]"


definition double_add :: "action list" where
  "double_add =
     [CallNewTask ''a'', CallNewTask ''a'', AddCheck 0, AddCheck 1, AddInsert 0]"

definition single_add :: "action list" where
  "single_add =
     [CallNewTask ''a'', CallNewTask ''a'', AddCheck 0, AddInsert 0, AddCheck 1]"

section \<open>The task lock\<close>

lemma Lock_capacity: "capacity (lock (snd (Lock t))) = capacity (lock t)"
  by (simp add: Lock_def)

lemma Unlock_capacity: "capacity (lock (Unlock t)) = capacity (lock t)"
  by (simp add: Unlock_def)

lemma call_slot:
  "capacity (lock t) = 1 \<Longrightarrow> buffered (lock t) \<le> 1 \<Longrightarrow>
   capacity (lock (call c t)) = 1 \<and> buffered (lock (call c t)) \<le> 1"
  by (cases c) (auto simp: Lock_def Unlock_def)

lemma fold_call_slot:
  "capacity (lock t) = 1 \<Longrightarrow> buffered (lock t) \<le> 1 \<Longrightarrow>
   capacity (lock (fold call cs t)) = 1 \<and> buffered (lock (fold call cs t)) \<le> 1"
proof (induction cs arbitrary: t)
  case Nil
  then show ?case by simp
next
  case (Cons c cs)
  have "capacity (lock (call c t)) = 1" and "buffered (lock (call c t)) \<le> 1"
    using call_slot [OF Cons.prems] by simp_all
  then show ?case
    using Cons.IH [of "call c t"] by simp
qed

lemma NewTask_lock: "lock (NewTask ident) = \<lparr>capacity = 1, buffered = 1\<rparr>"
  by (simp add: NewTask_def Unlock_def make_chan_def)

text \<open>
  C1. A task made by \<open>NewTask\<close> starts with the token in its slot, and after any sequence
  of \<open>Lock()\<close> and \<open>Unlock()\<close> calls the slot (of capacity one) holds no or one token.
  There, \<open>Lock()\<close> returns true exactly when a token is present and leaves the slot
  empty; when it returns false the task is as it was. \<open>Unlock()\<close> leaves exactly one
  token, and on an occupied slot it changes nothing.
\<close>

theorem C1_lock_single_slot:
  "buffered (lock (NewTask ident)) = 1 \<and>
   (let t = fold call cs (NewTask ident) in
      capacity (lock t) = 1 \<and>
      (buffered (lock t) = 0 \<or> buffered (lock t) = 1) \<and>
      fst (Lock t) = (buffered (lock t) = 1) \<and>
      buffered (lock (snd (Lock t))) = 0 \<and>
      (\<not> fst (Lock t) \<longrightarrow> snd (Lock t) = t) \<and>
      buffered (lock (Unlock t)) = 1 \<and>
      (buffered (lock t) = 1 \<longrightarrow> Unlock t = t))"
proof -
  define t where "t = fold call cs (NewTask ident)"
  have slot: "capacity (lock t) = 1 \<and> buffered (lock t) \<le> 1"
    unfolding t_def by (rule fold_call_slot) (simp_all add: NewTask_lock)
  then have "buffered (lock t) = 0 \<or> buffered (lock t) = 1"
    by auto
  with slot show ?thesis
    unfolding t_def [symmetric] Let_def
    by (auto simp: NewTask_lock Lock_def Unlock_def)
qed

theorem C1_lock_single_slot_witness:
  "(let t = fold call [CallLock, CallLock, CallUnlock, CallUnlock] (NewTask ''t1'') in
      buffered (lock t) = 1 \<and> fst (Lock t) \<and> Unlock t = t) \<and>
   (let t = fold call [CallUnlock, CallLock] (NewTask ''t1'') in
      buffered (lock t) = 0 \<and> \<not> fst (Lock t) \<and> snd (Lock t) = t \<and>
      buffered (lock (Unlock t)) = 1)"
  using C1_lock_single_slot [of "''t1''" "[CallLock, CallLock, CallUnlock, CallUnlock]"]
    C1_lock_single_slot [of "''t1''" "[CallUnlock, CallLock]"]
  by (simp add: NewTask_def Lock_def Unlock_def make_chan_def)

section \<open>The recurrence state machine\<close>

text \<open>
  C2. A task with an empty recurrence string can be scheduled, at any time, exactly when
  its count is \<open>0\<close>, and is complete exactly when its count is not \<open>0\<close>, whatever the
  parser and the clock.
\<close>

theorem C2_one_shot:
  assumes "Recurrence (Schedule t) = []"
  shows "CanSchedule StrToRRule t now = (Count (Schedule t) = 0) \<and>
         IsComplete StrToRRule clk t = (Count (Schedule t) \<noteq> 0)"
  using assms by (simp add: CanSchedule_def IsComplete_def)

theorem C2_one_shot_witness:
  "Recurrence (Schedule (NewTask ''t1'')) = [] \<and>
   CanSchedule sample_StrToRRule (NewTask ''t1'') 5 \<and>
   \<not> IsComplete sample_StrToRRule 5 (NewTask ''t1'') \<and>
   Recurrence (Schedule (MarkScheduled 5 (NewTask ''t1''))) = [] \<and>
   \<not> CanSchedule sample_StrToRRule (MarkScheduled 5 (NewTask ''t1'')) 6 \<and>
   IsComplete sample_StrToRRule 6 (MarkScheduled 5 (NewTask ''t1''))"
proof -
  have a: "Recurrence (Schedule (NewTask ''t1'')) = []"
    by (simp add: NewTask_def Unlock_def)
  have b: "Recurrence (Schedule (MarkScheduled 5 (NewTask ''t1''))) = []"
    by (simp add: NewTask_def Unlock_def MarkScheduled_def)
  show ?thesis
    using a b
      C2_one_shot [where t = "NewTask ''t1''" and StrToRRule = sample_StrToRRule
        and now = 5 and clk = 5]
      C2_one_shot [where t = "MarkScheduled 5 (NewTask ''t1'')"
        and StrToRRule = sample_StrToRRule and now = 6 and clk = 6]
    by (simp add: NewTask_def Unlock_def MarkScheduled_def)
qed

text \<open>
  C3. When the recurrence string is not empty and the parser rejects it, \<open>CanSchedule\<close> is
  false at every time and \<open>IsComplete\<close> is true at every reading of the clock.
\<close>

theorem C3_unparsable_recurrence:
  assumes "Recurrence (Schedule t) \<noteq> []"
    and "StrToRRule (Recurrence (Schedule t)) = Inl err"
  shows "\<not> CanSchedule StrToRRule t now \<and> IsComplete StrToRRule clk t"
  using assms by (simp add: CanSchedule_def IsComplete_def)

theorem C3_unparsable_recurrence_witness:
  "Recurrence (Schedule ((NewTask ''t1'')\<lparr>Schedule := \<lparr>Recurrence = ''bad'', Count = 0, UpdatedAt = 0\<rparr>\<rparr>)) \<noteq> [] \<and>
   sample_StrToRRule ''bad'' = Inl (Error ''wrong format'') \<and>
   \<not> CanSchedule sample_StrToRRule
       ((NewTask ''t1'')\<lparr>Schedule := \<lparr>Recurrence = ''bad'', Count = 0, UpdatedAt = 0\<rparr>\<rparr>) 5 \<and>
   IsComplete sample_StrToRRule 5
       ((NewTask ''t1'')\<lparr>Schedule := \<lparr>Recurrence = ''bad'', Count = 0, UpdatedAt = 0\<rparr>\<rparr>)"
proof -
  let ?t = "(NewTask ''t1'')\<lparr>Schedule := \<lparr>Recurrence = ''bad'', Count = 0, UpdatedAt = 0\<rparr>\<rparr>"
  have a: "Recurrence (Schedule ?t) \<noteq> []"
    by simp
  have b: "sample_StrToRRule (Recurrence (Schedule ?t)) = Inl (Error ''wrong format'')"
    by (simp add: sample_StrToRRule_def)
  show ?thesis
    using a b
      C3_unparsable_recurrence [where t = ?t and StrToRRule = sample_StrToRRule
        and err = "Error ''wrong format''" and now = 5 and clk = 5]
    by simp
qed

text \<open>
  C6. \<open>SetRecurrence(rfc)\<close>: when the parser rejects \<open>rfc\<close> the call returns the parser's
  error wrapped as a bad request and the task is unchanged (recurrence, count and
  updatedAt included); when the parser accepts \<open>rfc\<close> the call returns no error, the
  recurrence is \<open>rfc\<close>, and count and updatedAt (and the id and the lock) are unchanged.
\<close>

theorem C6_SetRecurrence:
  "(\<forall>err. StrToRRule rfc = Inl err \<longrightarrow>
      SetRecurrence StrToRRule rfc t = (Some (BadRequest err), t)) \<and>
   (\<forall>rule. StrToRRule rfc = Inr rule \<longrightarrow>
      fst (SetRecurrence StrToRRule rfc t) = None \<and>
      Recurrence (Schedule (snd (SetRecurrence StrToRRule rfc t))) = rfc \<and>
      Count (Schedule (snd (SetRecurrence StrToRRule rfc t))) = Count (Schedule t) \<and>
      UpdatedAt (Schedule (snd (SetRecurrence StrToRRule rfc t))) = UpdatedAt (Schedule t) \<and>
      Id_task (snd (SetRecurrence StrToRRule rfc t)) = Id_task t \<and>
      lock (snd (SetRecurrence StrToRRule rfc t)) = lock t)"
  by (simp add: SetRecurrence_def)

theorem C6_SetRecurrence_witness:
  "sample_StrToRRule ''bad'' = Inl (Error ''wrong format'') \<and>
   SetRecurrence sample_StrToRRule ''bad'' (MarkScheduled 5 (NewTask ''t1'')) =
     (Some (BadRequest (Error ''wrong format'')), MarkScheduled 5 (NewTask ''t1'')) \<and>
   sample_StrToRRule ''FREQ=SECONDLY;COUNT=2'' = Inr sample_rule \<and>
   fst (SetRecurrence sample_StrToRRule ''FREQ=SECONDLY;COUNT=2'' (MarkScheduled 5 (NewTask ''t1''))) = None \<and>
   Schedule (snd (SetRecurrence sample_StrToRRule ''FREQ=SECONDLY;COUNT=2''
       (MarkScheduled 5 (NewTask ''t1'')))) =
     \<lparr>Recurrence = ''FREQ=SECONDLY;COUNT=2'', Count = 1, UpdatedAt = 5\<rparr>"
proof -
  have a: "sample_StrToRRule ''bad'' = Inl (Error ''wrong format'')"
    by (simp add: sample_StrToRRule_def)
  have b: "sample_StrToRRule ''FREQ=SECONDLY;COUNT=2'' = Inr sample_rule"
    by (simp add: sample_StrToRRule_def)
  have c: "Schedule (MarkScheduled 5 (NewTask ''t1'')) = \<lparr>Recurrence = [], Count = 1, UpdatedAt = 5\<rparr>"
    by (simp add: MarkScheduled_def NewTask_def Unlock_def)
  show ?thesis
    using a b c
      C6_SetRecurrence [of sample_StrToRRule "''bad''" "MarkScheduled 5 (NewTask ''t1'')"]
      C6_SetRecurrence [of sample_StrToRRule "''FREQ=SECONDLY;COUNT=2''"
        "MarkScheduled 5 (NewTask ''t1'')"]
    by (simp add: SetRecurrence_def)
qed

text \<open>
  C10. The task \<open>NewTask(id)\<close> has an empty recurrence string, count \<open>0\<close> and the zero
  updatedAt; so, untouched, it can be scheduled at every time and is not complete,
  whatever the parser and the clock.
\<close>

theorem C10_NewTask_schedule:
  "Id_task (NewTask ident) = ident \<and>
   Schedule (NewTask ident) = \<lparr>Recurrence = [], Count = 0, UpdatedAt = 0\<rparr> \<and>
   CanSchedule StrToRRule (NewTask ident) now \<and>
   \<not> IsComplete StrToRRule clk (NewTask ident)"
  by (simp add: NewTask_def Unlock_def CanSchedule_def IsComplete_def)

section \<open>Scheduler: configuration\<close>

text \<open>
  C9, as the source has it. The sweep interval of \<open>New\<close> is exactly one millisecond
  (a million nanoseconds), and both timeouts are ten milliseconds, which lies between
  ten and a hundred.
\<close>

theorem C9_defaults:
  "interval New = Millisecond \<and> interval New = 1000000 \<and>
   enqueueTimeout New = 10 * Millisecond \<and> dequeueTimeout New = 10 * Millisecond \<and>
   10 * Millisecond \<le> enqueueTimeout New \<and> enqueueTimeout New < 100 * Millisecond \<and>
   10 * Millisecond \<le> dequeueTimeout New \<and> dequeueTimeout New < 100 * Millisecond"
  by (simp add: New_def DefaultInterval_def DefaultEnqueueTimeout_def
      DefaultDequeueTimeout_def Millisecond_def Microsecond_def Nanosecond_def)

text \<open>C9, as stated, asks for an interval below one millisecond. It is not.\<close>

theorem C9_interval_not_below_millisecond:
  "\<not> interval New < Millisecond"
  by (simp add: New_def DefaultInterval_def)

section \<open>The worker handler\<close>

text \<open>
  C8. Let the queue answer some \<open>Dequeue\<close> calls with messages and then one with an
  error. The handler starts a unit of work for each message; at the error it gives the
  error to the sink exactly when \<open>IsFatal\<close> holds of it, calls the worker callback (when
  one is set) once, with nil, and leaves the loop: it has made one \<open>Dequeue\<close> call for
  each message and one for the error, and none of the answers after the error is read.
\<close>

theorem C8_dequeue_error_ends_handler:
  "handler IsFatal s (map Inr msgs @ Inl err # answers) h =
     h\<lparr>dequeued := dequeued h + length msgs + 1,
       sent := sent h @ (if IsFatal err then [err] else []),
       notified := notified h @ (if notifyWorker s then [None] else []),
       started := started h @ msgs,
       finished := True\<rparr>"
proof (induction msgs arbitrary: h)
  case Nil
  show ?case by simp
next
  case (Cons m msgs)
  show ?case by (simp add: Cons.IH)
qed

theorem C8_dequeue_error_ends_handler_witness:
  "handler sample_IsFatal (NotifyWorker True New)
     [Inr sample_msg, Inl (Error ''fatal''), Inr sample_msg, Inl (Error ''timeout'')] idle =
     \<lparr>dequeued = 2, sent = [Error ''fatal''], notified = [None], started = [sample_msg],
      jobs = [], finished = True\<rparr> \<and>
   handler sample_IsFatal New [Inl (Error ''timeout''), Inr sample_msg] idle =
     \<lparr>dequeued = 1, sent = [], notified = [], started = [], jobs = [], finished = True\<rparr>"
  using C8_dequeue_error_ends_handler [of sample_IsFatal "NotifyWorker True New" "[sample_msg]"
      "Error ''fatal''" "[Inr sample_msg, Inl (Error ''timeout'')]" idle]
    C8_dequeue_error_ends_handler [of sample_IsFatal New "[]" "Error ''timeout''"
      "[Inr sample_msg]" idle]
  by (simp add: sample_IsFatal_def NotifyWorker_def New_def idle_def)

section \<open>The dispatch sweep and the retirement loop\<close>

lemmas action_defs =
  call_NewTask_def call_SetRecurrence_def add_check_def add_insert_def tick_def sweep_begin_def
  sweep_visit_def sweep_end_def unit_Enqueue_def unit_MarkScheduled_def
  unit_IsComplete_def retire_receive_def unit_return_def retire_delete_def

lemmas eval_defs =
  boot_def action_defs leave_def Notify_def New_def NewTask_def Lock_def Unlock_def
  make_chan_def CanSchedule_def IsComplete_def MarkScheduled_def SetRecurrence_def
  Add_check_def Add_insert_def sample_StrToRRule_def sample_rule_def Second_def Millisecond_def Microsecond_def
  Nanosecond_def Let_def

text \<open>An invariant of every action holds along every run.\<close>

lemma run_invariant:
  assumes step: "\<And>x w w'. fire P x w = Some w' \<Longrightarrow> I w \<Longrightarrow> I w'"
  shows "run P xs w = Some w' \<Longrightarrow> I w \<Longrightarrow> I w'"
proof (induction xs arbitrary: w)
  case Nil
  then show ?case by simp
next
  case (Cons x xs)
  then obtain w1 where f: "fire P x w = Some w1" and r: "run P xs w1 = Some w'"
    by (auto split: option.splits)
  from step [OF f Cons.prems(2)] have "I w1" .
  with Cons.IH [OF r] show ?case .
qed

subsection \<open>Locks of capacity one\<close>

lemma fire_slots_ok:
  assumes "fire P x w = Some w'" and "slots_ok w"
  shows "slots_ok w'"
proof (cases x)
  case (CallNewTask ident)
  with assms show ?thesis
    by (auto simp: call_NewTask_def slots_ok_def NewTask_lock split: if_splits)
next
  case (CallSetRecurrence a rfc)
  with assms show ?thesis
    by (auto simp: call_SetRecurrence_def slots_ok_def SetRecurrence_def split: option.splits sum.splits if_splits)
next
  case (AddCheck a)
  with assms show ?thesis
    by (auto simp: add_check_def slots_ok_def split: option.splits if_splits)
next
  case (AddInsert a)
  with assms show ?thesis
    by (auto simp: add_insert_def Add_insert_def slots_ok_def split: option.splits if_splits)
next
  case (Tick t)
  with assms show ?thesis
    by (auto simp: tick_def slots_ok_def split: if_splits)
next
  case SweepBegin
  with assms show ?thesis
    by (auto simp: sweep_begin_def slots_ok_def split: if_splits)
next
  case (SweepVisit k)
  with assms show ?thesis
    by (auto simp: sweep_visit_def slots_ok_def leave_def Let_def Lock_def Unlock_def split: option.splits if_splits prod.splits)
next
  case SweepEnd
  with assms show ?thesis
    by (auto simp: sweep_end_def slots_ok_def split: option.splits if_splits prod.splits)
next
  case (UnitEnqueue u answer)
  with assms show ?thesis
    by (auto simp: unit_Enqueue_def slots_ok_def leave_def Unlock_def split: option.splits if_splits)
next
  case (UnitMarkScheduled u)
  with assms show ?thesis
    by (auto simp: unit_MarkScheduled_def slots_ok_def MarkScheduled_def split: option.splits if_splits)
next
  case (UnitIsComplete u)
  with assms show ?thesis
    by (auto simp: unit_IsComplete_def slots_ok_def leave_def Unlock_def split: option.splits if_splits)
next
  case (UnitReturn u)
  with assms show ?thesis
    by (auto simp: unit_return_def slots_ok_def leave_def Unlock_def split: option.splits if_splits)
next
  case (RetireReceive u)
  with assms show ?thesis
    by (auto simp: retire_receive_def slots_ok_def split: option.splits if_splits)
next
  case RetireDelete
  with assms show ?thesis
    by (auto simp: retire_delete_def slots_ok_def split: option.splits if_splits)
qed

lemma boot_slots_ok: "slots_ok (boot f)"
  by (simp add: slots_ok_def boot_def)

lemma run_slots_ok: "run P xs (boot f) = Some w \<Longrightarrow> slots_ok w"
  by (rule run_invariant [where I = slots_ok, OF fire_slots_ok]) (auto simp: boot_slots_ok)

subsection \<open>What a unit of work has behind it\<close>

lemma relayed_grow: "relayed P a k tr \<Longrightarrow> relayed P a k (tr @ es)"
  unfolding relayed_def by (blast intro: subseq_rev_drop_many)

lemma chain_at_grow: "chain_at P p u a k tr \<Longrightarrow> chain_at P p u a k (tr @ es)"
  by (cases p) (auto intro: subseq_rev_drop_many)

lemma subseq_snoc: "subseq xs tr \<Longrightarrow> subseq (xs @ [e]) (tr @ [e])"
  by (simp add: list_emb_append_mono)

lemma split_last:
  assumes "tr @ [e] = b @ r # af"
  shows "(af = [] \<and> b = tr \<and> e = r) \<or> (\<exists>af'. af = af' @ [e] \<and> tr = b @ r # af')"
  using assms by (cases af rule: rev_cases) auto

lemma removals_grow:
  assumes "removals_ok P tr" and "\<And>k a. e \<noteq> Removed k a"
  shows "removals_ok P (tr @ [e])"
  unfolding removals_ok_def
proof (intro allI impI)
  fix b k a af
  assume "tr @ [e] = b @ Removed k a # af"
  from split_last [OF this] assms(2) obtain af' where "tr = b @ Removed k a # af'"
    by auto
  with assms(1) show "relayed P a k b"
    by (auto simp: removals_ok_def)
qed

lemma removals_add:
  assumes "removals_ok P tr" and "relayed P a k tr"
  shows "removals_ok P (tr @ [Removed k a])"
  unfolding removals_ok_def
proof (intro allI impI)
  fix b k' a' af
  assume "tr @ [Removed k a] = b @ Removed k' a' # af"
  from split_last [OF this]
  show "relayed P a' k' b"
  proof
    assume "af = [] \<and> b = tr \<and> Removed k a = Removed k' a'"
    with assms(2) show ?thesis by auto
  next
    assume "\<exists>af'. af = af' @ [Removed k a] \<and> tr = b @ Removed k' a' # af'"
    with assms(1) show ?thesis by (auto simp: removals_ok_def)
  qed
qed

text \<open>No action removes a task from the store or changes its id.\<close>

lemma fire_idof:
  assumes "fire P x w = Some w'" and "slots_ok w" and "heap w a \<noteq> None"
  shows "heap w' a \<noteq> None \<and> idof w' a = idof w a"
proof (cases x)
  case (CallNewTask ident)
  with assms show ?thesis
    by (auto simp: call_NewTask_def slots_ok_def idof_def split: if_splits)
next
  case (CallSetRecurrence a rfc)
  with assms show ?thesis
    by (auto simp: call_SetRecurrence_def idof_def SetRecurrence_def split: option.splits sum.splits if_splits)
next
  case (AddCheck b)
  with assms show ?thesis
    by (auto simp: add_check_def idof_def split: option.splits if_splits)
next
  case (AddInsert b)
  with assms show ?thesis
    by (auto simp: add_insert_def Add_insert_def idof_def split: option.splits if_splits)
next
  case (Tick t)
  with assms show ?thesis
    by (auto simp: tick_def idof_def split: if_splits)
next
  case SweepBegin
  with assms show ?thesis
    by (auto simp: sweep_begin_def idof_def split: if_splits)
next
  case (SweepVisit k)
  with assms show ?thesis
    by (auto simp: sweep_visit_def idof_def leave_def Let_def Lock_def Unlock_def split: option.splits if_splits prod.splits)
next
  case SweepEnd
  with assms show ?thesis
    by (auto simp: sweep_end_def idof_def split: option.splits if_splits prod.splits)
next
  case (UnitEnqueue u answer)
  with assms show ?thesis
    by (auto simp: unit_Enqueue_def idof_def leave_def Unlock_def split: option.splits if_splits)
next
  case (UnitMarkScheduled u)
  with assms show ?thesis
    by (auto simp: unit_MarkScheduled_def idof_def MarkScheduled_def split: option.splits if_splits)
next
  case (UnitIsComplete u)
  with assms show ?thesis
    by (auto simp: unit_IsComplete_def idof_def leave_def Unlock_def split: option.splits if_splits)
next
  case (UnitReturn u)
  with assms show ?thesis
    by (auto simp: unit_return_def idof_def leave_def Unlock_def split: option.splits if_splits)
next
  case (RetireReceive u)
  with assms show ?thesis
    by (auto simp: retire_receive_def idof_def split: option.splits if_splits)
next
  case RetireDelete
  with assms show ?thesis
    by (auto simp: retire_delete_def idof_def split: option.splits if_splits)
qed

lemma chain_ok_step:
  assumes ok: "chain_ok P w"
    and hp: "\<And>a. heap w a \<noteq> None \<Longrightarrow> heap w' a \<noteq> None \<and> idof w' a = idof w a"
    and tr: "trace w' = trace w @ es"
    and rm: "removals_ok P (trace w')"
    and un: "\<And>u d. units w' u = Some d \<Longrightarrow>
              units w u = Some d \<or>
              (heap w (d_task d) \<noteq> None \<and>
               chain_at P (d_at d) u (d_task d) (idof w (d_task d)) (trace w'))"
    and rc: "\<And>a. received w' = Some a \<Longrightarrow>
              received w = Some a \<or>
              (heap w a \<noteq> None \<and> relayed P a (idof w a) (trace w'))"
  shows "chain_ok P w'"
  unfolding chain_ok_def
proof (intro conjI allI impI)
  fix u d
  assume u: "units w' u = Some d"
  from un [OF u]
  have a: "heap w (d_task d) \<noteq> None \<and>
           chain_at P (d_at d) u (d_task d) (idof w (d_task d)) (trace w')"
  proof
    assume "units w u = Some d"
    with ok have "heap w (d_task d) \<noteq> None"
      and "chain_at P (d_at d) u (d_task d) (idof w (d_task d)) (trace w)"
      by (auto simp: chain_ok_def)
    then show ?thesis
      by (simp add: tr chain_at_grow)
  qed
  with hp [of "d_task d"] show "heap w' (d_task d) \<noteq> None"
    by simp
  from a hp [of "d_task d"]
  show "chain_at P (d_at d) u (d_task d) (idof w' (d_task d)) (trace w')"
    by simp
next
  fix a
  assume r: "received w' = Some a"
  from rc [OF r]
  have a: "heap w a \<noteq> None \<and> relayed P a (idof w a) (trace w')"
  proof
    assume "received w = Some a"
    with ok have "heap w a \<noteq> None" and "relayed P a (idof w a) (trace w)"
      by (auto simp: chain_ok_def)
    then show ?thesis
      by (simp add: tr relayed_grow)
  qed
  with hp [of a] show "heap w' a \<noteq> None"
    by simp
  from a hp [of a] show "relayed P a (idof w' a) (trace w')"
    by simp
next
  show "removals_ok P (trace w')"
    by (rule rm)
qed

lemma chain_ok_removals: "chain_ok P w \<Longrightarrow> removals_ok P (trace w)"
  by (simp add: chain_ok_def)

lemma chain_ok_unit:
  "chain_ok P w \<Longrightarrow> units w u = Some d \<Longrightarrow>
   heap w (d_task d) \<noteq> None \<and>
   chain_at P (d_at d) u (d_task d) (idof w (d_task d)) (trace w)"
  by (simp add: chain_ok_def)

lemma chain_ok_received:
  "chain_ok P w \<Longrightarrow> received w = Some a \<Longrightarrow>
   heap w a \<noteq> None \<and> relayed P a (idof w a) (trace w)"
  by (simp add: chain_ok_def)

lemma fire_chain_ok:
  assumes f: "fire P x w = Some w'" and sl: "slots_ok w" and ok: "chain_ok P w"
  shows "chain_ok P w'"
proof -
  note hp = fire_idof [OF f sl]
  note rm = chain_ok_removals [OF ok]
  show ?thesis
  proof (cases x)
    case (CallNewTask ident)
    with f show ?thesis
      by (intro chain_ok_step [OF ok hp, where es = "[]"])
        (auto simp: call_NewTask_def rm)
  next
    case (CallSetRecurrence a rfc)
    with f show ?thesis
      by (intro chain_ok_step [OF ok hp, where es = "[]"])
        (auto simp: call_SetRecurrence_def rm split: option.splits)
  next
    case (AddCheck a)
    with f have "units w' = units w" "received w' = received w" "trace w' = trace w"
      by (auto simp: add_check_def split: option.splits if_splits)
    then show ?thesis
      by (intro chain_ok_step [OF ok hp, where es = "[]"]) (auto simp: rm)
  next
    case (AddInsert a)
    with f show ?thesis
      by (intro chain_ok_step [OF ok hp, where es = "[]"])
        (auto simp: add_insert_def Add_insert_def rm split: option.splits if_splits)
  next
    case (Tick t)
    with f show ?thesis
      by (intro chain_ok_step [OF ok hp, where es = "[]"])
        (auto simp: tick_def rm split: option.splits if_splits)
  next
    case SweepBegin
    with f show ?thesis
      by (intro chain_ok_step [OF ok hp, where es = "[]"])
        (auto simp: sweep_begin_def rm split: option.splits if_splits)
  next
    case (SweepVisit k)
    from f SweepVisit consider (quiet) "units w' = units w" "received w' = received w" "trace w' = trace w"
      | (spawn) a where "units w' = (units w)(next_unit w \<mapsto> \<lparr>d_task = a, d_now = fst (the (sweep w)), d_at = AtEnqueue\<rparr>)"
          "received w' = received w" "trace w' = trace w @ [Spawned (next_unit w) a]" "heap w a \<noteq> None"
      by (auto simp: sweep_visit_def leave_def Let_def split: option.splits if_splits prod.splits)
    then show ?thesis
    proof cases
      case quiet
      then show ?thesis
        by (intro chain_ok_step [OF ok hp, where es = "[]"]) (auto simp: rm)
    next
      case spawn
      then show ?thesis
        by (intro chain_ok_step [OF ok hp, where es = "[Spawned (next_unit w) a]"])
          (auto simp: rm removals_grow split: if_splits)
    qed
  next
    case SweepEnd
    with f show ?thesis
      by (intro chain_ok_step [OF ok hp, where es = "[]"])
        (auto simp: sweep_end_def rm split: option.splits if_splits prod.splits)
  next
    case (UnitEnqueue u answer)
    from f UnitEnqueue obtain d where d: "units w u = Some d" "heap w (d_task d) \<noteq> None"
      by (auto simp: unit_Enqueue_def split: option.splits if_splits)
    show ?thesis
    proof (cases answer)
      case None
      have "subseq [Enqueued u (d_task d)] (trace w @ [Enqueued u (d_task d)])"
        by (simp add: subseq_singleton_left)
      with None f UnitEnqueue d show ?thesis
        by (intro chain_ok_step [OF ok hp, where es = "[Enqueued u (d_task d)]"])
          (auto simp: unit_Enqueue_def rm removals_grow split: option.splits if_splits)
    next
      case (Some err)
      with f UnitEnqueue d show ?thesis
        by (intro chain_ok_step [OF ok hp, where es = "[EnqueueFailed u (d_task d) err]"])
          (auto simp: unit_Enqueue_def leave_def rm removals_grow split: option.splits if_splits)
    qed
  next
    case (UnitMarkScheduled u)
    from f UnitMarkScheduled obtain d where d: "units w u = Some d" "heap w (d_task d) \<noteq> None"
      "d_at d = AtMarkScheduled"
      by (auto simp: unit_MarkScheduled_def split: option.splits if_splits)
    from chain_ok_unit [OF ok d(1)] d(3)
    have "subseq [Enqueued u (d_task d)] (trace w)"
      by simp
    from subseq_snoc [OF this]
    have "subseq [Enqueued u (d_task d), Marked u (d_task d)] (trace w @ [Marked u (d_task d)])"
      by simp
    with f UnitMarkScheduled d show ?thesis
      by (intro chain_ok_step [OF ok hp, where es = "[Marked u (d_task d)]"])
        (auto simp: unit_MarkScheduled_def rm removals_grow split: option.splits if_splits)
  next
    case (UnitIsComplete u)
    from f UnitIsComplete obtain d t where d: "units w u = Some d" "heap w (d_task d) = Some t"
      "d_at d = AtIsComplete"
      by (auto simp: unit_IsComplete_def split: option.splits if_splits)
    from chain_ok_unit [OF ok d(1)] d(3)
    have "subseq [Enqueued u (d_task d), Marked u (d_task d)] (trace w)"
      by simp
    from subseq_snoc [OF this]
    have sq: "subseq [Enqueued u (d_task d), Marked u (d_task d), Complete u (d_task d) (clock w) t]
        (trace w @ [Complete u (d_task d) (clock w) t])"
      by simp
    show ?thesis
    proof (cases "IsComplete P (clock w) t")
      case True
      with sq d have "chain_at P AtSend u (d_task d) (idof w (d_task d))
          (trace w @ [Complete u (d_task d) (clock w) t])"
        by (auto simp: idof_def)
      with True f UnitIsComplete d show ?thesis
        by (intro chain_ok_step [OF ok hp, where es = "[Complete u (d_task d) (clock w) t]"])
          (auto simp: unit_IsComplete_def rm removals_grow simp del: chain_at.simps split: if_splits)
    next
      case False
      with f UnitIsComplete d show ?thesis
        by (intro chain_ok_step [OF ok hp, where es = "[NotComplete u (d_task d)]"])
          (auto simp: unit_IsComplete_def leave_def rm removals_grow split: if_splits)
    qed
  next
    case (UnitReturn u)
    with f show ?thesis
      by (intro chain_ok_step [OF ok hp, where es = "[]"])
        (auto simp: unit_return_def leave_def rm split: option.splits if_splits)
  next
    case (RetireReceive u)
    from f RetireReceive obtain d where d: "units w u = Some d" "d_at d = AtSend"
      by (auto simp: retire_receive_def split: option.splits if_splits)
    from chain_ok_unit [OF ok d(1)] d(2)
    have hd: "heap w (d_task d) \<noteq> None"
      and "chain_at P AtSend u (d_task d) (idof w (d_task d)) (trace w)"
      by simp_all
    then obtain clk t where
      "subseq [Enqueued u (d_task d), Marked u (d_task d), Complete u (d_task d) clk t] (trace w)"
      and ct: "IsComplete P clk t" "Id_task t = idof w (d_task d)"
      by auto
    from subseq_snoc [OF this(1)]
    have "subseq [Enqueued u (d_task d), Marked u (d_task d), Complete u (d_task d) clk t,
        Relayed u (d_task d)] (trace w @ [Relayed u (d_task d)])"
      by simp
    with ct have "relayed P (d_task d) (idof w (d_task d)) (trace w @ [Relayed u (d_task d)])"
      unfolding relayed_def by blast
    with f RetireReceive d hd show ?thesis
      by (intro chain_ok_step [OF ok hp, where es = "[Relayed u (d_task d)]"])
        (auto simp: retire_receive_def rm removals_grow split: if_splits)
  next
    case RetireDelete
    from f RetireDelete obtain a t where a: "received w = Some a" "heap w a = Some t"
      by (auto simp: retire_delete_def split: option.splits if_splits)
    from chain_ok_received [OF ok a(1)] a(2)
    have "relayed P a (Id_task t) (trace w)"
      by (simp add: idof_def)
    from removals_add [OF rm this] f RetireDelete a show ?thesis
      by (intro chain_ok_step [OF ok hp, where es = "[Removed (Id_task t) a]"])
        (auto simp: retire_delete_def split: if_splits)
  qed
qed

lemma boot_chain_ok: "chain_ok P (boot f)"
  by (simp add: chain_ok_def boot_def removals_ok_def)

lemma run_sound:
  assumes "run P xs (boot f) = Some w"
  shows "slots_ok w \<and> chain_ok P w"
  using assms
  by (rule run_invariant [where I = "\<lambda>w. slots_ok w \<and> chain_ok P w", rotated])
    (auto simp: boot_slots_ok boot_chain_ok intro: fire_slots_ok fire_chain_ok)

subsection \<open>Where a unit of work's task is\<close>












subsection \<open>Completion and the ledger\<close>

text \<open>
  Once \<open>IsComplete\<close> has been true of a task at some reading of the clock,
  \<open>CanSchedule\<close> is false of that task from that time on.
\<close>

lemma IsComplete_blocks_CanSchedule:
  "IsComplete P clk t \<Longrightarrow> clk \<le> now \<Longrightarrow> \<not> CanSchedule P t now"
  by (auto simp: IsComplete_def CanSchedule_def split: sum.splits if_splits)

text \<open>\<open>Add\<close> never removes an entry; only the retirement loop removes one.\<close>

lemma fire_ledger_loss:
  assumes "fire P x w = Some w'"
    and "map_of (tasks (sched w)) k \<noteq> None"
    and "map_of (tasks (sched w')) k = None"
  shows "x = RetireDelete"
proof (cases x)
  case (AddInsert a)
  with assms show ?thesis
    by (auto simp: add_insert_def Add_insert_def AList.update_conv' split: option.splits if_splits)
next
  case (SweepVisit k')
  with assms show ?thesis
    by (auto simp: sweep_visit_def leave_def Let_def split: option.splits if_splits prod.splits)
qed (use assms in \<open>auto simp: action_defs leave_def split: option.splits if_splits prod.splits\<close>)




text \<open>
  C4, as the source has it. In a world that a run has reached, let an action take the
  entry of an id \<open>k\<close> from the ledger. The action is the retirement loop's delete of the
  task it has received, and before it some unit of work had its \<open>Enqueue\<close> of that task
  return nil, then called \<open>MarkScheduled\<close>, then saw \<open>IsComplete()\<close> true, at a reading
  \<open>clk\<close> of the clock, of the task as it was then, whose id is \<open>k\<close>, and then its send on
  \<open>completed\<close> went through; and of the task as it was then \<open>CanSchedule(now)\<close> is false
  for every \<open>now\<close> from \<open>clk\<close> on.
\<close>

theorem C4_removal_only_after_relay:
  assumes "run StrToRRule acts (boot f) = Some w"
    and "fire StrToRRule x w = Some w'"
    and "map_of (tasks (sched w)) k \<noteq> None"
    and "map_of (tasks (sched w')) k = None"
  shows "x = RetireDelete \<and>
         (\<exists>a u clk t.
            received w = Some a \<and>
            subseq [Enqueued u a, Marked u a, Complete u a clk t, Relayed u a] (trace w) \<and>
            IsComplete StrToRRule clk t \<and> Id_task t = k \<and>
            (\<forall>now. clk \<le> now \<longrightarrow> \<not> CanSchedule StrToRRule t now))"
proof -
  from assms(1) have ok: "chain_ok StrToRRule w"
    by (simp add: run_sound)
  from assms(2-4) have x: "x = RetireDelete"
    by (rule fire_ledger_loss)
  with assms(2) obtain a t where a: "received w = Some a" "heap w a = Some t"
    and w': "tasks (sched w') = AList.delete (Id_task t) (tasks (sched w))"
    by (auto simp: retire_delete_def split: option.splits if_splits)
  from w' assms(3,4) have k: "Id_task t = k"
    by (cases "k = Id_task t") (auto simp: AList.delete_conv')
  from chain_ok_received [OF ok a(1)] a(2) k have "relayed StrToRRule a k (trace w)"
    by (simp add: idof_def)
  then obtain u clk t0 where
    "subseq [Enqueued u a, Marked u a, Complete u a clk t0, Relayed u a] (trace w)"
    "IsComplete StrToRRule clk t0" "Id_task t0 = k"
    unfolding relayed_def by blast
  with a(1) x show ?thesis
    by (blast dest: IsComplete_blocks_CanSchedule)
qed

theorem C4_removal_only_after_relay_witness:
  "\<exists>w w'. run sample_StrToRRule one_shot (boot True) = Some w \<and>
     fire sample_StrToRRule RetireDelete w = Some w' \<and>
     map_of (tasks (sched w)) ''t1'' = Some 0 \<and>
     map_of (tasks (sched w')) ''t1'' = None \<and>
     (\<exists>a u clk t. received w = Some a \<and>
        subseq [Enqueued u a, Marked u a, Complete u a clk t, Relayed u a] (trace w) \<and>
        IsComplete sample_StrToRRule clk t \<and> Id_task t = ''t1'' \<and>
        \<not> CanSchedule sample_StrToRRule t (clk + 7))"
proof -
  have "\<exists>w w'. run sample_StrToRRule one_shot (boot True) = Some w \<and>
     fire sample_StrToRRule RetireDelete w = Some w' \<and>
     map_of (tasks (sched w)) ''t1'' = Some 0 \<and>
     map_of (tasks (sched w')) ''t1'' = None"
    by (simp add: one_shot_def eval_defs)
  then obtain w w' where r: "run sample_StrToRRule one_shot (boot True) = Some w"
    and f: "fire sample_StrToRRule RetireDelete w = Some w'"
    and l: "map_of (tasks (sched w)) ''t1'' = Some 0"
    and l': "map_of (tasks (sched w')) ''t1'' = None"
    by blast
  from l have "map_of (tasks (sched w)) ''t1'' \<noteq> None"
    by simp
  from C4_removal_only_after_relay [OF r f this l']
  obtain a u clk t where "received w = Some a"
    "subseq [Enqueued u a, Marked u a, Complete u a clk t, Relayed u a] (trace w)"
    "IsComplete sample_StrToRRule clk t" "Id_task t = ''t1''"
    "\<forall>now. clk \<le> now \<longrightarrow> \<not> CanSchedule sample_StrToRRule t now"
    by blast
  moreover from this(5) have "\<not> CanSchedule sample_StrToRRule t (clk + 7)"
    by simp
  ultimately show ?thesis
    using r f l l' by blast
qed

text \<open>
  C4, as stated, fails. In \<open>late_recurrence\<close> the task is in the ledger, \<open>CanSchedule\<close> is
  true of it at the present time, and the retirement loop deletes it. In \<open>race\<close> the
  ledger holds the second task registered under the id: no unit of work was ever
  started for it and it can be scheduled; the delete that follows the second receive
  of the first task takes it from the ledger.
\<close>

theorem C4_removed_while_schedulable:
  "(case run sample_StrToRRule late_recurrence (boot False) of
      None \<Rightarrow> False
    | Some w \<Rightarrow>
        map_of (tasks (sched w)) ''t1'' = Some 0 \<and>
        (case heap w 0 of None \<Rightarrow> False | Some t \<Rightarrow> CanSchedule sample_StrToRRule t (clock w)) \<and>
        (case fire sample_StrToRRule RetireDelete w of
           None \<Rightarrow> False
         | Some w' \<Rightarrow> map_of (tasks (sched w')) ''t1'' = None)) \<and>
   (case run sample_StrToRRule race (boot False) of
      None \<Rightarrow> False
    | Some w \<Rightarrow>
        map_of (tasks (sched w)) ''t1'' = Some 1 \<and>
        heap w 1 = Some (NewTask ''t1'') \<and>
        list_all (\<lambda>e. about e \<noteq> 1) (trace w) \<and>
        CanSchedule sample_StrToRRule (NewTask ''t1'') (clock w) \<and>
        (case fire sample_StrToRRule RetireDelete w of
           None \<Rightarrow> False
         | Some w' \<Rightarrow> map_of (tasks (sched w')) ''t1'' = None))"
  by (simp add: late_recurrence_def race_def eval_defs)

section \<open>Registration\<close>

text \<open>
  One pass of the loop body of \<open>Add\<close>: it ends at the check for the empty id and for
  an id the ledger has at that moment; otherwise the insertion puts the task under
  its id, replacing whatever the ledger has there by then.
\<close>

lemma Add_body:
  assumes "store task = Some t"
  shows "(Id_task t = [] \<longrightarrow> Add_check store task s = Some False) \<and>
         (map_of (tasks s) (Id_task t) \<noteq> None \<longrightarrow> Add_check store task s = Some False) \<and>
         (Id_task t \<noteq> [] \<and> map_of (tasks s) (Id_task t) = None \<longrightarrow>
            Add_check store task s = Some True) \<and>
         Add_insert store task s =
           Some (s\<lparr>tasks := AList.update (Id_task t) task (tasks s)\<rparr>) \<and>
         map_of (AList.update (Id_task t) task (tasks s)) = (map_of (tasks s))(Id_task t \<mapsto> task)"
  using assms by (auto simp: Add_check_def Add_insert_def AList.update_conv')

text \<open>
  C7. \<open>Add\<close> does not keep the first registration of an id when a second call checks
  before the first has inserted: in \<open>double_add\<close> the ledger has the first task under the
  id, and the insertion of the second call puts the second task in its place. When the
  second call checks after the first has inserted (\<open>single_add\<close>), it ends at the check
  and the first task stays.
\<close>

theorem C7_second_Add_replaces_first:
  "(case run sample_StrToRRule double_add (boot False) of
      None \<Rightarrow> False
    | Some w \<Rightarrow>
        tasks (sched w) = [(''a'', 0)] \<and>
        (case fire sample_StrToRRule (AddInsert 1) w of
           None \<Rightarrow> False
         | Some w' \<Rightarrow> tasks (sched w') = [(''a'', 1)])) \<and>
   (case run sample_StrToRRule single_add (boot False) of
      None \<Rightarrow> False
    | Some w \<Rightarrow>
        tasks (sched w) = [(''a'', 0)] \<and> adding w = [] \<and>
        fire sample_StrToRRule (AddInsert 1) w = None)"
  by (simp add: double_add_def single_add_def eval_defs)

end
